theory Spec2Isabelle
  imports Main "HOL-Library.Word" "HOL-Library.Multiset" "HOL-Library.Monad_Syntax"
begin

unbundle bit_operations_syntax

section \<open>Machine types of \<open>name_processor.c\<close>\<close>

text \<open>
  The program is compiled by GCC (\<open>gcc -g -O0\<close>): \<open>char\<close> has 8 bits, \<open>int\<close> and
  \<open>unsigned int\<close> have 32 bits, \<open>int\<close> is two's complement. An \<open>unsigned int\<close> is a
  \<open>32 word\<close>; an \<open>int\<close> is a HOL \<open>int\<close> that every operation able to leave the range
  brings back with \<open>int32\<close>.

  Whether plain \<open>char\<close> is signed is the compiler's choice (signed on x86, unsigned on
  ARM Linux) and not fixed by the source: it is the parameter \<open>char_signed\<close> of every
  function that reads a \<open>char\<close>.
\<close>

type_synonym byte = "8 word"
type_synonym u32 = "32 word"

definition int32 :: "int \<Rightarrow> int" where
  \<comment> \<open>the value of a 32-bit two's complement \<open>int\<close> holding \<open>v\<close> modulo \<open>2 ^ 32\<close>\<close>
  "int32 v = sint (word_of_int v :: 32 word)"

definition int_to_uint :: "int \<Rightarrow> u32" where
  \<comment> \<open>conversion of an \<open>int\<close> operand to \<open>unsigned int\<close>: modulo \<open>2 ^ 32\<close>\<close>
  "int_to_uint v = word_of_int v"

definition size_to_int :: "nat \<Rightarrow> int" where
  \<comment> \<open>\<open>int length = strlen(name)\<close>: a \<open>size_t\<close> stored in an \<open>int\<close>\<close>
  "size_to_int n = int32 (int n)"

definition char_to_int :: "bool \<Rightarrow> byte \<Rightarrow> int" where
  \<comment> \<open>\<open>c = *str\<close> with \<open>int c\<close> and \<open>const char *str\<close>: the byte promoted to \<open>int\<close>\<close>
  "char_to_int char_signed b = (if char_signed then sint b else uint b)"

section \<open>C strings in memory\<close>

text \<open>
  \<open>name\<close> points to bytes in memory; a \<open>byte list\<close> holds the bytes from the pointer
  onwards. A C string ends at its first NUL byte. Reading past the last byte of the list
  is a read outside the object: the result \<open>None\<close>.
\<close>

fun strlen :: "byte list \<Rightarrow> nat option" where
  "strlen [] = None"
| "strlen (b # bs) = (if b = 0 then Some 0 else map_option Suc (strlen bs))"

fun c_str :: "byte list \<Rightarrow> byte list option" where
  \<comment> \<open>the bytes that \<open>printf\<close> writes for \<open>%s\<close>\<close>
  "c_str [] = None"
| "c_str (b # bs) = (if b = 0 then Some [] else map_option ((#) b) (c_str bs))"

section \<open>Standard output\<close>

datatype arg = ArgStr "byte list" | ArgNull | ArgInt int | ArgUInt u32

datatype event = Printf string "arg list"

section \<open>\<open>process_name\<close>\<close>

text \<open>
  \<^verbatim>\<open>while ((c = *str++)) { hash = ((hash << 5) + hash) + c; }\<close>
\<close>

definition hash_step :: "u32 \<Rightarrow> int \<Rightarrow> u32" where
  \<comment> \<open>the loop body; \<open>hash << 5\<close> is \<open>push_bit 5 hash\<close>, and the \<open>int\<close> \<open>c\<close> is converted
     to \<open>unsigned int\<close> for the addition\<close>
  "hash_step hash c = (push_bit 5 hash + hash) + int_to_uint c"

fun hash_loop :: "bool \<Rightarrow> byte list \<Rightarrow> u32 \<Rightarrow> u32 option" where
  "hash_loop char_signed [] hash = None"
| "hash_loop char_signed (b # str) hash =
     (let c = char_to_int char_signed b
      in if c \<noteq> 0
         then hash_loop char_signed str (hash_step hash c)
         else Some hash)"

text \<open>
  \<^verbatim>\<open>for (int i = 0; i < length; i++) { char_counts[(unsigned char)name[i]]++; }\<close>

  The counter \<open>i\<close> runs from 0 and stays below \<open>length\<close>, so it is a \<open>nat\<close> compared
  with the \<open>int\<close> \<open>length\<close>. \<open>name[i]\<close> beyond the bytes of the list is a read outside
  the object: \<open>None\<close>. The index \<open>(unsigned char)name[i]\<close> is \<open>unat\<close> of the byte, below
  256, and the table has 256 entries.
\<close>

function count_loop :: "byte list \<Rightarrow> int \<Rightarrow> nat \<Rightarrow> int list \<Rightarrow> int list option" where
  "count_loop name len i char_counts =
     (if int i < len
      then (if i < length name
            then (let k = unat (name ! i)
                  in count_loop name len (Suc i)
                       (char_counts[k := int32 (char_counts ! k + 1)]))
            else None)
      else Some char_counts)"
  by pat_completeness auto
termination
  by (relation "measure (\<lambda>(name, len, i, char_counts). nat len - i)") auto

text \<open>
  \<^verbatim>\<open>for (int i = 0; i < 256; i++) {
    if (char_counts[i] > 0) { result = result ^ (char_counts[i] * i); } }\<close>

  The product is an \<open>int\<close> product, converted to \<open>unsigned int\<close> for the XOR. It leaves
  the range of \<open>int\<close> only when a byte occurs more than 8421504 times; the multiplication
  that GCC emits then wraps, as \<open>int32\<close> does.
\<close>

definition combine_step :: "int list \<Rightarrow> u32 \<Rightarrow> nat \<Rightarrow> u32" where
  "combine_step char_counts result i =
     (if char_counts ! i > 0
      then result XOR int_to_uint (int32 (char_counts ! i * int i))
      else result)"

function combine_loop :: "int list \<Rightarrow> nat \<Rightarrow> u32 \<Rightarrow> u32" where
  "combine_loop char_counts i result =
     (if i < 256
      then combine_loop char_counts (Suc i) (combine_step char_counts result i)
      else result)"
  by pat_completeness auto
termination
  by (relation "measure (\<lambda>(char_counts, i, result). 256 - i)") auto

declare count_loop.simps [simp del] combine_loop.simps [simp del]

text \<open>The local variables of \<open>process_name\<close> when it returns.\<close>

record locals =
  hash :: u32
  length' :: int
  char_counts :: "int list"
  result :: u32

definition process_name_locals :: "bool \<Rightarrow> byte list \<Rightarrow> locals option" where
  "process_name_locals char_signed name =
     do {
       h \<leftarrow> hash_loop char_signed name 5381;
       n \<leftarrow> strlen name;
       let len = size_to_int n;
       counts \<leftarrow> count_loop name len 0 (replicate 256 0);
       Some \<lparr>hash = h, length' = len, char_counts = counts,
             result = combine_loop counts 0 h\<rparr>
     }"

definition process_name :: "bool \<Rightarrow> byte list \<Rightarrow> (u32 \<times> event list) option" where
  \<open>process_name char_signed name =
     do {
       s \<leftarrow> c_str name;
       l \<leftarrow> process_name_locals char_signed name;
       Some (result l,
         [Printf ''Processing name: %s\<newline>'' [ArgStr s],
          Printf ''Name: %s, Length: %d, Hash: %u, Result: %u\<newline>''
            [ArgStr s, ArgInt (length' l), ArgUInt (hash l), ArgUInt (result l)]])
     }\<close>

section \<open>\<open>main\<close>\<close>

text \<open>
  \<open>argv\<close> is the list of the \<open>argc\<close> argument strings, each the memory it points to;
  \<open>argv[argc]\<close> is the null pointer, which \<open>printf\<close> is handed when \<open>argc\<close> is 0
  (\<open>ArgNull\<close>). The exit status is the value that \<open>main\<close> returns.
\<close>

definition argv_str :: "byte list list \<Rightarrow> nat \<Rightarrow> arg option" where
  "argv_str argv i =
     (if i < length argv then map_option ArgStr (c_str (argv ! i)) else Some ArgNull)"

definition usage :: "arg \<Rightarrow> event list" where
  \<open>usage a0 =
     [Printf ''Usage: %s <name>\<newline>'' [a0],
      Printf ''Example: %s "John"\<newline>'' [a0]]\<close>

definition main :: "bool \<Rightarrow> byte list list \<Rightarrow> (int \<times> event list) option" where
  \<open>main char_signed argv =
     (let argc = int (length argv)
      in if argc \<noteq> 2
         then do { a0 \<leftarrow> argv_str argv 0; Some (1, usage a0) }
         else do {
           let name = argv ! 1;
           s \<leftarrow> c_str name;
           (r, out) \<leftarrow> process_name char_signed name;
           Some (0,
             [Printf ''=== CPU Instruction Tracing for Name Processing ===\<newline>'' [],
              Printf ''Name to process: %s\<newline>'' [ArgStr s],
              Printf ''Starting processing...\<newline>'' []]
             @ out
             @ [Printf ''Processing complete. Result: %u\<newline>'' [ArgUInt r]])
         })\<close>

section \<open>The specification's side\<close>

text \<open>
  The DJB2 recurrence as the specification words it, on the byte values 0 to 255 and with
  the reduction modulo \<open>2 ^ 32\<close> written out.
\<close>

definition djb2 :: "byte list \<Rightarrow> nat" where
  "djb2 s = foldl (\<lambda>h c. (h * 33 + unat c) mod 2 ^ 32) 5381 s"

text \<open>
  The XOR fold as the specification words it: over the byte values that occur in the
  input, in ascending order, each contributing its number of occurrences times itself.
\<close>

definition byte_values :: "nat list" where
  "byte_values = [0..<256]"

definition occurrences :: "byte list \<Rightarrow> nat \<Rightarrow> nat" where
  "occurrences s i = count_list s (of_nat i)"

definition spec_xor_fold :: "byte list \<Rightarrow> u32 \<Rightarrow> u32" where
  "spec_xor_fold s h =
     foldl (\<lambda>r i. r XOR (of_nat (occurrences s i) * of_nat i)) h
       (filter (\<lambda>i. 0 < occurrences s i) byte_values)"

text \<open>The loop body of the XOR fold without its guard.\<close>

definition combine_step_unguarded :: "int list \<Rightarrow> u32 \<Rightarrow> nat \<Rightarrow> u32" where
  "combine_step_unguarded counts r i = r XOR int_to_uint (int32 (counts ! i * int i))"

text \<open>The bytes of a string literal.\<close>

definition bytes_of :: "string \<Rightarrow> byte list" where
  "bytes_of str = map (\<lambda>c. of_nat (of_char c)) str"

text \<open>The program name that \<open>main\<close> finds in \<open>argv[0]\<close>, as a C string in memory.\<close>

definition prog :: "byte list" where
  "prog = bytes_of ''./name_processor'' @ [0]"

text \<open>A string of \<open>2 ^ 31\<close> letters \<open>a\<close>: one byte more than an \<open>int\<close> can count.\<close>

definition long_name :: "byte list" where
  "long_name = replicate (2 ^ 31) 97"

text \<open>A frequency table that holds the occurrences of every byte value in \<open>s\<close>.\<close>

definition tallied :: "byte list \<Rightarrow> int list \<Rightarrow> bool" where
  "tallied s cs \<longleftrightarrow>
     length cs = 256 \<and> (\<forall>k<256. cs ! k = int (count_list s (of_nat k)))"

section \<open>Machine arithmetic\<close>

lemma int32_id: "- (2 ^ 31) \<le> v \<Longrightarrow> v < 2 ^ 31 \<Longrightarrow> int32 v = v"
  by (simp add: int32_def sint_sbintrunc' signed_take_bit_int_eq_self_iff)

lemma int32_less: "int32 v < 2 ^ 31"
  unfolding int32_def using sint_lt [of "word_of_int v :: 32 word"] by simp

lemma int32_le_self: "0 \<le> v \<Longrightarrow> int32 v \<le> v"
proof -
  assume "0 \<le> v"
  then have "(v + 2 ^ 31) mod 2 ^ 32 \<le> v + 2 ^ 31"
    by (intro zmod_le_nonneg_dividend) simp
  then show ?thesis
    by (simp add: int32_def int_word_sint)
qed

lemma size_to_int_id: "n < 2 ^ 31 \<Longrightarrow> size_to_int n = int n"
  unfolding size_to_int_def by (rule int32_id) simp_all

lemma int_to_uint_int32: "int_to_uint (int32 v) = int_to_uint v"
  by (simp add: int_to_uint_def int32_def)

lemma unat_byte_less: "unat (b :: byte) < 256"
  using unsigned_less [of b, where 'a = nat] by simp

lemma byte_of_nat_eq: "k < 256 \<Longrightarrow> (of_nat k = (b :: byte)) \<longleftrightarrow> k = unat b"
proof
  assume "k < 256" "of_nat k = b"
  then show "k = unat b" by (auto simp: unat_of_nat)
next
  assume "k = unat b"
  then show "of_nat k = b" by simp
qed

lemma char_to_int_eq_0: "char_to_int sg b = 0 \<longleftrightarrow> b = 0"
  unfolding char_to_int_def by (metis signed_eq_0_iff unsigned_eq_0_iff)

lemma char_to_int_ascii: "b < 128 \<Longrightarrow> char_to_int sg b = uint b"
proof -
  assume "b < 128"
  then have "uint b < 128" by (simp add: word_less_def)
  moreover have "- 128 \<le> uint b"
    using uint_ge_0 [of b] by linarith
  ultimately have "signed_take_bit 7 (uint b) = uint b"
    by (simp add: signed_take_bit_int_eq_self_iff)
  then have "sint b = uint b" by (simp add: sint_uint)
  then show ?thesis by (simp add: char_to_int_def)
qed

lemma unat_hash_step:
  "unat (hash_step h (uint (b :: byte))) = (unat h * 33 + unat b) mod 2 ^ 32"
proof -
  have "hash_step h (uint b) = h * 33 + word_of_int (uint b)"
    by (simp add: hash_step_def int_to_uint_def push_bit_eq_mult)
  moreover have "unat (word_of_int (uint b) :: u32) = unat b"
  proof -
    have "word_of_int (uint b) = (word_of_nat (unat b) :: u32)" by simp
    moreover have "unat (word_of_nat (unat b) :: u32) = unat b"
      using unat_byte_less [of b] by (simp only: unat_of_nat) simp
    ultimately show ?thesis by simp
  qed
  ultimately show ?thesis
    by (simp add: unat_word_ariths mod_simps)
qed

section \<open>The loops on a C string\<close>

lemma strlen_c_string: "0 \<notin> set s \<Longrightarrow> strlen (s @ 0 # rest) = Some (length s)"
  by (induction s) auto

lemma c_str_c_string: "0 \<notin> set s \<Longrightarrow> c_str (s @ 0 # rest) = Some s"
  by (induction s) auto

lemma hash_loop_c_string:
  "0 \<notin> set s \<Longrightarrow>
   hash_loop sg (s @ 0 # rest) h = Some (foldl (\<lambda>h b. hash_step h (char_to_int sg b)) h s)"
  by (induction s arbitrary: h) (auto simp: char_to_int_eq_0 Let_def)

lemma count_list_snoc: "count_list (xs @ [x]) y = count_list xs y + (if x = y then 1 else 0)"
  by (induction xs) auto

lemma count_list_le_length: "count_list xs y \<le> length xs"
  by (induction xs) auto

lemma tallied_init: "tallied [] (replicate 256 0)"
  by (simp add: tallied_def)

lemma tallied_step:
  assumes t: "tallied (take i name) cs" and i: "i < length name" and b: "int i < 2 ^ 31 - 1"
  shows "tallied (take (Suc i) name)
           (cs[unat (name ! i) := int32 (cs ! unat (name ! i) + 1)])"
proof -
  let ?k = "unat (name ! i)"
  have k: "?k < 256" by (rule unat_byte_less)
  have "cs ! ?k = int (count_list (take i name) (name ! i))"
    using t k by (simp add: tallied_def)
  moreover have "count_list (take i name) (name ! i) \<le> i"
    using count_list_le_length [of "take i name" "name ! i"] i by simp
  ultimately have "int32 (cs ! ?k + 1) = cs ! ?k + 1"
    using b by (intro int32_id) auto
  moreover have "take (Suc i) name = take i name @ [name ! i]"
    using i by (simp add: take_Suc_conv_app_nth)
  ultimately have upd: "int32 (cs ! ?k + 1) = cs ! ?k + 1"
    and snoc: "take (Suc i) name = take i name @ [name ! i]" by simp_all
  show ?thesis
    unfolding tallied_def
  proof (intro conjI allI impI)
    show "length (cs[?k := int32 (cs ! ?k + 1)]) = 256"
      using t by (simp add: tallied_def)
  next
    fix j :: nat
    assume j: "j < 256"
    have cj: "cs ! j = int (count_list (take i name) (of_nat j))"
      using t j by (simp add: tallied_def)
    have len: "length cs = 256" using t by (simp add: tallied_def)
    show "cs[?k := int32 (cs ! ?k + 1)] ! j = int (count_list (take (Suc i) name) (of_nat j))"
    proof (cases "j = ?k")
      case True
      have "cs[?k := int32 (cs ! ?k + 1)] ! j = int32 (cs ! ?k + 1)"
        using True len k by simp
      also have "\<dots> = cs ! ?k + 1" by (rule upd)
      also have "\<dots> = int (count_list (take (Suc i) name) (of_nat j))"
        using True cj by (simp add: snoc count_list_snoc)
      finally show ?thesis .
    next
      case False
      then have "of_nat j \<noteq> name ! i" using byte_of_nat_eq [OF j] by blast
      with False cj show ?thesis
        by (simp add: snoc count_list_snoc)
    qed
  qed
qed

lemma count_loop_tallied:
  "tallied (take i name) cs \<Longrightarrow> nat len \<le> length name \<Longrightarrow> len < 2 ^ 31 \<Longrightarrow> i \<le> nat len \<Longrightarrow>
   \<exists>cs'. count_loop name len i cs = Some cs' \<and> tallied (take (nat len) name) cs'"
proof (induction name len i cs rule: count_loop.induct)
  case (1 name len i cs)
  show ?case
  proof (cases "int i < len")
    case True
    with 1 have i: "i < length name" by linarith
    from True 1 have b: "int i < 2 ^ 31 - 1" by linarith
    have "tallied (take (Suc i) name)
           (cs[unat (name ! i) := int32 (cs ! unat (name ! i) + 1)])"
      using tallied_step [OF "1.prems"(1) i b] .
    moreover have "Suc i \<le> nat len" using True by linarith
    ultimately have "\<exists>cs'. count_loop name len (Suc i)
        (cs[unat (name ! i) := int32 (cs ! unat (name ! i) + 1)]) = Some cs' \<and>
        tallied (take (nat len) name) cs'"
      using "1.IH" [OF True i refl] "1.prems" by blast
    then show ?thesis using True i by (subst count_loop.simps) (simp add: Let_def)
  next
    case False
    with 1 have "i = nat len" by linarith
    with False 1 show ?thesis by (subst count_loop.simps) simp
  qed
qed

lemma size_to_int_le: "nat (size_to_int n) \<le> n"
  using int32_le_self [of "int n"] by (simp add: size_to_int_def)

lemma size_to_int_less: "size_to_int n < 2 ^ 31"
  unfolding size_to_int_def by (rule int32_less)

text \<open>The frequency loop of \<open>process_name\<close> on a C string: it tallies the first \<open>length\<close> bytes.\<close>

lemma count_loop_c_string:
  "\<exists>cs. count_loop (s @ 0 # rest) (size_to_int (length s)) 0 (replicate 256 0) = Some cs \<and>
        tallied (take (nat (size_to_int (length s))) s) cs"
proof -
  let ?len = "size_to_int (length s)"
  have le: "nat ?len \<le> length s" by (rule size_to_int_le)
  have "\<exists>cs. count_loop (s @ 0 # rest) ?len 0 (replicate 256 0) = Some cs \<and>
        tallied (take (nat ?len) (s @ 0 # rest)) cs"
    using le tallied_init size_to_int_less [of "length s"] by (intro count_loop_tallied) simp_all
  then show ?thesis using le by simp
qed

lemma combine_loop_upt:
  "i \<le> 256 \<Longrightarrow> combine_loop cs i r = foldl (combine_step cs) r [i..<256]"
proof (induction cs i r rule: combine_loop.induct)
  case (1 cs i r)
  show ?case
  proof (cases "i < 256")
    case True
    then have "[i..<256] = i # [Suc i..<256]" by (simp add: upt_conv_Cons)
    with True 1 show ?thesis by (subst combine_loop.simps) simp
  next
    case False
    with 1 show ?thesis by (subst combine_loop.simps) simp
  qed
qed

lemma combine_loop_foldl: "combine_loop cs 0 r = foldl (combine_step cs) r byte_values"
  unfolding byte_values_def by (rule combine_loop_upt) simp

text \<open>What \<open>process_name\<close> leaves in its local variables, for every C string.\<close>

lemma process_name_locals_c_string:
  assumes "0 \<notin> set s"
  shows "\<exists>cs. tallied (take (nat (size_to_int (length s))) s) cs \<and>
    process_name_locals sg (s @ 0 # rest) =
      Some \<lparr>hash = foldl (\<lambda>h b. hash_step h (char_to_int sg b)) 5381 s,
            length' = size_to_int (length s),
            char_counts = cs,
            result = foldl (combine_step cs)
                       (foldl (\<lambda>h b. hash_step h (char_to_int sg b)) 5381 s) byte_values\<rparr>"
proof -
  obtain cs where cs: "count_loop (s @ 0 # rest) (size_to_int (length s)) 0 (replicate 256 0) = Some cs"
    and t: "tallied (take (nat (size_to_int (length s))) s) cs"
    using count_loop_c_string by blast
  have "process_name_locals sg (s @ 0 # rest) =
      Some \<lparr>hash = foldl (\<lambda>h b. hash_step h (char_to_int sg b)) 5381 s,
            length' = size_to_int (length s),
            char_counts = cs,
            result = foldl (combine_step cs)
                       (foldl (\<lambda>h b. hash_step h (char_to_int sg b)) 5381 s) byte_values\<rparr>"
    using assms cs
    by (simp add: process_name_locals_def hash_loop_c_string strlen_c_string combine_loop_foldl)
  with t show ?thesis by blast
qed

lemma process_name_c_string:
  assumes "0 \<notin> set s" and "process_name_locals sg (s @ 0 # rest) = Some l"
  shows "process_name sg (s @ 0 # rest) =
    Some (result l,
         [Printf ''Processing name: %s\<newline>'' [ArgStr s],
          Printf ''Name: %s, Length: %d, Hash: %u, Result: %u\<newline>''
            [ArgStr s, ArgInt (length' l), ArgUInt (hash l), ArgUInt (result l)]])"
  using assms by (simp add: process_name_def c_str_c_string)

section \<open>The frequency table and the XOR fold\<close>

lemma tallied_unique: "tallied s cs \<Longrightarrow> tallied s cs' \<Longrightarrow> cs = cs'"
  by (rule nth_equalityI) (simp_all add: tallied_def)

lemma tallied_nonneg: "tallied s cs \<Longrightarrow> i < 256 \<Longrightarrow> 0 \<le> cs ! i"
  by (simp add: tallied_def)

lemma tallied_byte: "tallied s cs \<Longrightarrow> cs ! unat b = int (count_list s b)"
  using unat_byte_less [of b] by (simp add: tallied_def)

lemma sum_bytes: "(\<Sum>k<256. f (of_nat k :: byte)) = (\<Sum>b\<in>UNIV. f b)"
  by (rule sum.reindex_bij_witness [where i = unat and j = of_nat])
     (auto simp: unat_byte_less unat_of_nat)

lemma sum_count_bytes: "(\<Sum>k<256. count_list s (of_nat k :: byte)) = length s"
  by (simp add: sum_bytes sum_count_set)

lemma tallied_sum_list:
  assumes "tallied s cs"
  shows "sum_list cs = int (length s)"
proof -
  have "sum_list cs = (\<Sum>k<256. cs ! k)"
    using assms by (simp add: sum_list_sum_nth tallied_def atLeast0LessThan)
  also have "\<dots> = (\<Sum>k<256. int (count_list s (of_nat k)))"
    using assms by (intro sum.cong) (simp_all add: tallied_def)
  also have "\<dots> = int (\<Sum>k<256. count_list s (of_nat k :: byte))" by simp
  also have "\<dots> = int (length s)" by (simp only: sum_count_bytes)
  finally show ?thesis .
qed

lemma set_byte_values: "i \<in> set byte_values \<longleftrightarrow> i < 256"
  by (simp add: byte_values_def)

lemma combine_step_zero: "cs ! i \<le> 0 \<Longrightarrow> combine_step cs r i = r"
  by (simp add: combine_step_def)

lemma foldl_combine_step_zero:
  "(\<And>i. i \<in> set js \<Longrightarrow> cs ! i \<le> 0) \<Longrightarrow> foldl (combine_step cs) r js = r"
  by (induction js arbitrary: r) (simp_all add: combine_step_zero)

lemma combine_step_tallied:
  assumes "tallied s cs" and "i < 256"
  shows "combine_step cs r i =
    (if 0 < occurrences s i then r XOR (of_nat (occurrences s i) * of_nat i) else r)"
proof -
  have "cs ! i = int (occurrences s i)"
    using assms by (simp add: tallied_def occurrences_def)
  then show ?thesis
    by (simp add: combine_step_def int_to_uint_int32) (simp add: int_to_uint_def)
qed

lemma foldl_combine_step_filter:
  assumes "tallied s cs"
  shows "(\<And>i. i \<in> set js \<Longrightarrow> i < 256) \<Longrightarrow>
    foldl (combine_step cs) r js =
    foldl (\<lambda>r i. r XOR (of_nat (occurrences s i) * of_nat i)) r
      (filter (\<lambda>i. 0 < occurrences s i) js)"
proof (induction js arbitrary: r)
  case Nil
  show ?case by simp
next
  case (Cons j js)
  then have "j < 256" by simp
  then show ?case
    using Cons by (simp add: combine_step_tallied [OF assms])
qed

lemma foldl_combine_step_positive:
  "foldl (combine_step cs) r js =
   foldl (\<lambda>r i. r XOR (word_of_int (cs ! i) * of_nat i)) r (filter (\<lambda>i. 0 < cs ! i) js)"
  by (induction js arbitrary: r)
     (simp_all add: combine_step_def int_to_uint_int32, simp_all add: int_to_uint_def)

lemma combine_step_guard:
  "0 \<le> cs ! i \<Longrightarrow> combine_step cs r i = combine_step_unguarded cs r i"
  by (cases "cs ! i = 0")
     (simp_all add: combine_step_def combine_step_unguarded_def int_to_uint_def int32_def)

lemma foldl_combine_step_guard:
  "(\<And>i. i \<in> set js \<Longrightarrow> 0 \<le> cs ! i) \<Longrightarrow>
   foldl (combine_step cs) r js = foldl (combine_step_unguarded cs) r js"
  by (induction js arbitrary: r) (simp_all add: combine_step_guard)

lemma combine_step_commute:
  "combine_step cs (combine_step cs r i) j = combine_step cs (combine_step cs r j) i"
  by (simp add: combine_step_def ac_simps)

lemma foldl_combine_step_mset:
  assumes "mset js = mset ks"
  shows "foldl (combine_step cs) r js = foldl (combine_step cs) r ks"
proof -
  have "fold (\<lambda>i r. combine_step cs r i) js = fold (\<lambda>i r. combine_step cs r i) ks"
    by (rule fold_multiset_equiv) (auto simp: fun_eq_iff combine_step_commute assms)
  then show ?thesis by (simp add: foldl_conv_fold)
qed

lemma foldl_hash_step_djb2:
  "(\<And>b. b \<in> set s \<Longrightarrow> char_to_int sg b = uint b) \<Longrightarrow>
   unat (foldl (\<lambda>h b. hash_step h (char_to_int sg b)) h s) =
   foldl (\<lambda>h c. (h * 33 + unat c) mod 2 ^ 32) (unat h) s"
  by (induction s arbitrary: h) (simp_all add: unat_hash_step)

lemma process_name_locals_tallied:
  assumes "0 \<notin> set s"
  shows "\<exists>l. process_name_locals sg (s @ 0 # rest) = Some l
    \<and> hash l = foldl (\<lambda>h b. hash_step h (char_to_int sg b)) 5381 s
    \<and> length' l = size_to_int (length s)
    \<and> tallied (take (nat (size_to_int (length s))) s) (char_counts l)
    \<and> result l = foldl (combine_step (char_counts l)) (hash l) byte_values"
  using process_name_locals_c_string [OF assms, of sg rest] by force

section \<open>A string longer than \<open>int\<close> can count\<close>

lemma count_list_replicate_eq: "count_list (replicate n x) y = (if x = y then n else 0)"
  by (induction n) auto

lemma filter_eq_upt: "k < n \<Longrightarrow> filter (\<lambda>i. i = k) [0..<n] = [k]"
  by (induction n) (auto simp: less_Suc_eq)

lemma xor_neq_self: "a \<noteq> 0 \<Longrightarrow> h XOR a \<noteq> (h :: u32)"
  by (metis bit.xor_left_self bit.xor_self)

lemma long_name_no_nul: "0 \<notin> set long_name"
  by (simp add: long_name_def)

lemma length_long_name: "length long_name = 2 ^ 31"
  by (simp only: long_name_def length_replicate)

lemma size_to_int_long_name: "size_to_int (length long_name) = - 2147483648"
  by (simp add: length_long_name size_to_int_def int32_def)

lemma count_long_name: "count_list long_name 97 = 2147483648"
  by (simp add: long_name_def count_list_replicate_eq)

lemma occurrences_long_name:
  "i < 256 \<Longrightarrow> 0 < occurrences long_name i \<longleftrightarrow> i = 97"
  by (simp add: occurrences_def long_name_def count_list_replicate_eq byte_of_nat_eq eq_commute [of "97 :: byte"])

lemma spec_xor_fold_long_name: "spec_xor_fold long_name h = h XOR 2147483648"
proof -
  have "filter (\<lambda>i. 0 < occurrences long_name i) byte_values = filter (\<lambda>i. i = 97) byte_values"
    by (rule filter_cong) (simp_all add: set_byte_values occurrences_long_name)
  also have "\<dots> = [97]"
    unfolding byte_values_def by (rule filter_eq_upt) simp
  finally have "spec_xor_fold long_name h = h XOR (of_nat (occurrences long_name 97) * 97)"
    by (simp add: spec_xor_fold_def)
  also have "occurrences long_name 97 = 2147483648"
    using count_long_name by (simp add: occurrences_def)
  finally have "spec_xor_fold long_name h = h XOR 208305913856" by simp
  moreover have "(208305913856 :: u32) = 2147483648" by simp
  ultimately show ?thesis by (simp only:)
qed

lemma process_name_locals_long_name:
  "\<exists>l. process_name_locals sg (long_name @ 0 # rest) = Some l
     \<and> length' l = - 2147483648 \<and> char_counts l = replicate 256 0 \<and> result l = hash l"
proof -
  obtain l where l: "process_name_locals sg (long_name @ 0 # rest) = Some l"
    and n: "length' l = size_to_int (length long_name)"
    and t: "tallied (take (nat (size_to_int (length long_name))) long_name) (char_counts l)"
    and r: "result l = foldl (combine_step (char_counts l)) (hash l) byte_values"
    using process_name_locals_tallied [OF long_name_no_nul, of sg rest] by blast
  from t have "tallied [] (char_counts l)" by (simp add: size_to_int_long_name)
  then have c: "char_counts l = replicate 256 0"
    using tallied_init by (rule tallied_unique)
  have "foldl (combine_step (replicate 256 0)) (hash l) byte_values = hash l"
    by (rule foldl_combine_step_zero) (simp add: set_byte_values)
  with l n c r show ?thesis by (simp add: size_to_int_long_name)
qed

section \<open>The fingerprint of ``John''\<close>

lemma John_bytes: "bytes_of ''John'' = [74, 111, 104, 110]"
  by (simp add: bytes_of_def)

lemma John_hash:
  "foldl (\<lambda>h b. hash_step h (char_to_int sg b)) 5381 (bytes_of ''John'') = 2089257364"
  by (simp add: John_bytes hash_step_def char_to_int_def int_to_uint_def)

lemma John_xor_fold: "spec_xor_fold (bytes_of ''John'') 2089257364 = 2089257399"
  by code_simp

lemma John_terms:
  "map (\<lambda>i. of_nat (occurrences (bytes_of ''John'') i) * of_nat i)
     (filter (\<lambda>i. 0 < occurrences (bytes_of ''John'') i) byte_values)
   = [74, 104, 110, 111 :: u32]"
  by code_simp

section \<open>Properties of \<open>process_name\<close>\<close>

text \<open>
  In the theorems below the memory at \<open>name\<close> is \<open>s @ 0 # rest\<close>: the bytes \<open>s\<close> of the
  string, none of them NUL, then the terminating NUL, then whatever follows it in memory.
\<close>

text \<open>
  C1, amended: for every C string of fewer than \<open>2 ^ 31\<close> bytes, the value that
  \<open>process_name\<close> returns is its hash accumulator XOR-folded, in ascending order of the
  byte values 0 to 255, with the terms \<open>count * i\<close> (modulo \<open>2 ^ 32\<close>) of exactly the byte
  values \<open>i\<close> that occur in the input, \<open>count\<close> being the number of occurrences of \<open>i\<close>.
\<close>

theorem process_name_result_xor_fold:
  assumes "0 \<notin> set s" and "length s < 2 ^ 31"
  shows "\<exists>l out. process_name_locals sg (s @ 0 # rest) = Some l
    \<and> process_name sg (s @ 0 # rest) = Some (result l, out)
    \<and> result l = spec_xor_fold s (hash l)"
proof -
  obtain l where l: "process_name_locals sg (s @ 0 # rest) = Some l"
    and t: "tallied (take (nat (size_to_int (length s))) s) (char_counts l)"
    and r: "result l = foldl (combine_step (char_counts l)) (hash l) byte_values"
    using process_name_locals_tallied [OF assms(1), of sg rest] by blast
  from assms(2) t have "tallied s (char_counts l)" by (simp add: size_to_int_id)
  then have "result l = spec_xor_fold s (hash l)"
    unfolding r spec_xor_fold_def
    by (rule foldl_combine_step_filter) (simp add: set_byte_values)
  then show ?thesis
    using process_name_c_string [OF assms(1) l] l by simp
qed

theorem process_name_result_xor_fold_witness:
  "0 \<notin> set (bytes_of ''John'') \<and> length (bytes_of ''John'') < 2 ^ 31 \<and>
   (\<exists>l out. process_name_locals True (bytes_of ''John'' @ 0 # []) = Some l
      \<and> process_name True (bytes_of ''John'' @ 0 # []) = Some (result l, out)
      \<and> result l = spec_xor_fold (bytes_of ''John'') (hash l))"
proof -
  have a: "0 \<notin> set (bytes_of ''John'')" by (simp add: bytes_of_def)
  have b: "length (bytes_of ''John'') < 2 ^ 31" by (simp add: bytes_of_def)
  show ?thesis
    using a b process_name_result_xor_fold [OF a b, of True "[]"] by blast
qed

text \<open>
  C1 as stated, for every input, fails on \<open>long_name\<close>: its length \<open>2 ^ 31\<close> is stored in
  the \<open>int\<close> \<open>length\<close> as \<open>- 2 ^ 31\<close>, the frequency loop does not run, the table stays
  zero and \<open>process_name\<close> returns the hash itself, while the fold over the byte that
  occurs flips the top bit of the hash (\<open>2 ^ 31 * 97\<close> is \<open>2 ^ 31\<close> modulo \<open>2 ^ 32\<close>).
\<close>

theorem xor_fold_long_name_counterexample:
  "process_name_locals True (long_name @ [0]) \<noteq> None
   \<and> map_option fst (process_name True (long_name @ [0]))
       = map_option hash (process_name_locals True (long_name @ [0]))
   \<and> map_option fst (process_name True (long_name @ [0]))
       \<noteq> map_option (spec_xor_fold long_name)
           (map_option hash (process_name_locals True (long_name @ [0])))"
proof -
  obtain l where l: "process_name_locals True (long_name @ 0 # []) = Some l"
    and r: "result l = hash l"
    using process_name_locals_long_name [of True "[]"] by blast
  have "spec_xor_fold long_name (hash l) \<noteq> hash l"
    unfolding spec_xor_fold_long_name by (rule xor_neq_self) simp
  then show ?thesis
    using l r process_name_c_string [OF long_name_no_nul l] by simp
qed

text \<open>
  C3: on the empty string \<open>process_name\<close> returns 5381; the accumulator is still 5381,
  the length is 0 and every entry of the frequency table is 0.
\<close>

theorem process_name_empty:
  "process_name_locals sg (0 # rest) =
     Some \<lparr>hash = 5381, length' = 0, char_counts = replicate 256 0, result = 5381\<rparr>
   \<and> map_option fst (process_name sg (0 # rest)) = Some 5381"
proof -
  have "count_loop (0 # rest) 0 0 (replicate 256 0) = Some (replicate 256 0)"
    by (subst count_loop.simps) simp
  moreover have "foldl (combine_step (replicate 256 0)) 5381 byte_values = 5381"
    by (rule foldl_combine_step_zero) (simp add: set_byte_values)
  ultimately have l: "process_name_locals sg (0 # rest) =
     Some \<lparr>hash = 5381, length' = 0, char_counts = replicate 256 0, result = 5381\<rparr>"
    by (simp add: process_name_locals_def char_to_int_eq_0 size_to_int_id combine_loop_foldl)
  then show ?thesis by (simp add: process_name_def)
qed

text \<open>
  C4: \<open>process_name\<close> is deterministic. Two invocations on the same string, wherever it
  lies in memory and whatever follows its terminator, end with the same local variables
  (hash, length, frequency table, result), return the same value and print the same
  lines; and both do return.
\<close>

theorem process_name_deterministic:
  assumes "0 \<notin> set s"
  shows "process_name_locals sg (s @ 0 # rest1) = process_name_locals sg (s @ 0 # rest2)
    \<and> process_name sg (s @ 0 # rest1) = process_name sg (s @ 0 # rest2)
    \<and> process_name sg (s @ 0 # rest1) \<noteq> None"
proof -
  obtain l1 where l1: "process_name_locals sg (s @ 0 # rest1) = Some l1"
    and h1: "hash l1 = foldl (\<lambda>h b. hash_step h (char_to_int sg b)) 5381 s"
    and n1: "length' l1 = size_to_int (length s)"
    and t1: "tallied (take (nat (size_to_int (length s))) s) (char_counts l1)"
    and r1: "result l1 = foldl (combine_step (char_counts l1)) (hash l1) byte_values"
    using process_name_locals_tallied [OF assms, of sg rest1] by blast
  obtain l2 where l2: "process_name_locals sg (s @ 0 # rest2) = Some l2"
    and h2: "hash l2 = foldl (\<lambda>h b. hash_step h (char_to_int sg b)) 5381 s"
    and n2: "length' l2 = size_to_int (length s)"
    and t2: "tallied (take (nat (size_to_int (length s))) s) (char_counts l2)"
    and r2: "result l2 = foldl (combine_step (char_counts l2)) (hash l2) byte_values"
    using process_name_locals_tallied [OF assms, of sg rest2] by blast
  have c: "char_counts l1 = char_counts l2"
    using t1 t2 by (rule tallied_unique)
  have "l1 = l2"
    by (rule locals.equality) (simp_all add: h1 h2 n1 n2 c r1 r2)
  with l1 l2 show ?thesis
    by (simp add: process_name_c_string [OF assms])
qed

theorem process_name_deterministic_witness:
  "0 \<notin> set (bytes_of ''John'')
   \<and> process_name_locals True (bytes_of ''John'' @ 0 # [1, 2, 3])
     = process_name_locals True (bytes_of ''John'' @ 0 # [])
   \<and> process_name True (bytes_of ''John'' @ 0 # [1, 2, 3])
     = process_name True (bytes_of ''John'' @ 0 # [])
   \<and> process_name True (bytes_of ''John'' @ 0 # [1, 2, 3]) \<noteq> None"
proof -
  have a: "0 \<notin> set (bytes_of ''John'')" by (simp add: bytes_of_def)
  show ?thesis
    using a process_name_deterministic [OF a, of True "[1, 2, 3]" "[]"] by blast
qed

text \<open>
  C5: on ``John'', for either signedness of plain \<open>char\<close>, the hash is 2089257364, the
  length 4 and the returned value 2089257399; the terms of the bytes that occur are 74,
  104, 110 and 111, and 2089257399 is the hash XORed with these four.
\<close>

theorem process_name_John:
  "map_option (\<lambda>l. (hash l, length' l, result l))
     (process_name_locals sg (bytes_of ''John'' @ 0 # rest))
     = Some (2089257364, 4, 2089257399)
   \<and> map_option fst (process_name sg (bytes_of ''John'' @ 0 # rest)) = Some 2089257399
   \<and> map (\<lambda>i. of_nat (occurrences (bytes_of ''John'') i) * of_nat i)
        (filter (\<lambda>i. 0 < occurrences (bytes_of ''John'') i) byte_values)
      = [74, 104, 110, 111 :: u32]
   \<and> (2089257399 :: u32) = 2089257364 XOR 74 XOR 104 XOR 110 XOR 111"
proof -
  have a: "0 \<notin> set (bytes_of ''John'')" by (simp add: John_bytes)
  have n: "length (bytes_of ''John'') = 4" by (simp add: John_bytes)
  obtain l where l: "process_name_locals sg (bytes_of ''John'' @ 0 # rest) = Some l"
    and h: "hash l = foldl (\<lambda>h b. hash_step h (char_to_int sg b)) 5381 (bytes_of ''John'')"
    and len: "length' l = size_to_int (length (bytes_of ''John''))"
    and t: "tallied (take (nat (size_to_int (length (bytes_of ''John'')))) (bytes_of ''John''))
              (char_counts l)"
    and r: "result l = foldl (combine_step (char_counts l)) (hash l) byte_values"
    using process_name_locals_tallied [OF a, of sg rest] by blast
  have h': "hash l = 2089257364" by (simp only: h John_hash)
  have len': "length' l = 4" by (simp add: len n size_to_int_id)
  have t': "tallied (bytes_of ''John'') (char_counts l)"
    using t by (simp add: n size_to_int_id)
  have "result l = spec_xor_fold (bytes_of ''John'') (hash l)"
    unfolding r spec_xor_fold_def
    by (rule foldl_combine_step_filter [OF t']) (simp add: set_byte_values)
  then have r': "result l = 2089257399" by (simp only: h' John_xor_fold)
  have "map_option (\<lambda>l. (hash l, length' l, result l))
     (process_name_locals sg (bytes_of ''John'' @ 0 # rest))
     = Some (2089257364, 4, 2089257399)"
    by (simp add: l h' len' r')
  moreover have "map_option fst (process_name sg (bytes_of ''John'' @ 0 # rest)) = Some 2089257399"
    by (simp add: process_name_c_string [OF a l] r')
  moreover have "(2089257399 :: u32) = 2089257364 XOR 74 XOR 104 XOR 110 XOR 111"
    by simp
  moreover note John_terms
  ultimately show ?thesis by blast
qed

text \<open>
  C2: the claim takes the addend of each step to be the byte. Where plain \<open>char\<close> is
  signed, the byte \<open>0xE9\<close> is read as \<open>- 23\<close> and the hash of the one-byte string is
  \<open>5381 * 33 - 23 = 177550\<close>, while the recurrence on the byte value gives
  \<open>5381 * 33 + 233 = 177806\<close>, which is also what the code computes where plain \<open>char\<close>
  is unsigned.
\<close>

theorem hash_signed_char_high_byte:
  "map_option (\<lambda>l. unat (hash l)) (process_name_locals True [0xE9, 0]) = Some 177550
   \<and> djb2 [0xE9] = 177806
   \<and> map_option (\<lambda>l. unat (hash l)) (process_name_locals False [0xE9, 0]) = Some 177806"
proof -
  have a: "0 \<notin> set [0xE9 :: byte]" by simp
  have "map_option (\<lambda>l. unat (hash l)) (process_name_locals sg ([0xE9] @ 0 # []))
      = Some (unat (foldl (\<lambda>h b. hash_step h (char_to_int sg b)) 5381 [0xE9]))" for sg
    using process_name_locals_tallied [OF a, of sg "[]"] by force
  from this [of True] this [of False] show ?thesis
    by (simp add: djb2_def hash_step_def char_to_int_def int_to_uint_def)
qed

text \<open>Where plain \<open>char\<close> is unsigned the hash is the DJB2 hash of every C string.\<close>

lemma hash_unsigned_char_is_djb2:
  assumes "0 \<notin> set s"
  shows "map_option (\<lambda>l. unat (hash l)) (process_name_locals False (s @ 0 # rest)) = Some (djb2 s)"
proof -
  obtain l where l: "process_name_locals False (s @ 0 # rest) = Some l"
    and h: "hash l = foldl (\<lambda>h b. hash_step h (char_to_int False b)) 5381 s"
    using process_name_locals_tallied [OF assms(1), of False rest] by blast
  have "unat (hash l) = djb2 s"
    unfolding h djb2_def using foldl_hash_step_djb2 [of s False 5381]
    by (simp add: char_to_int_def)
  with l show ?thesis by simp
qed

text \<open>
  C6: for every C string, folding the loop body of the XOR fold over any permutation of
  the byte values 0 to 255, from the hash, gives the result that \<open>process_name\<close> computes
  in ascending order.
\<close>

theorem xor_fold_any_order:
  assumes "0 \<notin> set s" and "mset js = mset byte_values"
  shows "\<exists>l. process_name_locals sg (s @ 0 # rest) = Some l
           \<and> foldl (combine_step (char_counts l)) (hash l) js = result l"
  using process_name_locals_tallied [OF assms(1), of sg rest]
    foldl_combine_step_mset [OF assms(2)] by force

theorem xor_fold_any_order_witness:
  "0 \<notin> set (bytes_of ''John'') \<and> mset (rev byte_values) = mset byte_values
   \<and> (\<exists>l. process_name_locals True (bytes_of ''John'' @ 0 # []) = Some l
           \<and> foldl (combine_step (char_counts l)) (hash l) (rev byte_values) = result l)"
proof -
  have a: "0 \<notin> set (bytes_of ''John'')" by (simp add: bytes_of_def)
  have b: "mset (rev byte_values) = mset byte_values" by simp
  show ?thesis
    using a b xor_fold_any_order [OF a b, of True "[]"] by blast
qed

text \<open>
  C7, amended: for every C string of fewer than \<open>2 ^ 31\<close> bytes, the length that
  \<open>process_name\<close> computes is the number of bytes of the string, the frequency table has
  256 entries, the entry of every byte value is the number of occurrences of that byte in
  the string, and the entries sum to the length.
\<close>

theorem length_and_frequency_table:
  assumes "0 \<notin> set s" and "length s < 2 ^ 31"
  shows "\<exists>l. process_name_locals sg (s @ 0 # rest) = Some l
           \<and> length' l = int (length s)
           \<and> length (char_counts l) = 256
           \<and> (\<forall>b. char_counts l ! unat b = int (count_list s b))
           \<and> sum_list (char_counts l) = length' l"
proof -
  from assms(2) have len: "size_to_int (length s) = int (length s)"
    by (simp add: size_to_int_id)
  obtain l where l: "process_name_locals sg (s @ 0 # rest) = Some l"
    and n: "length' l = size_to_int (length s)"
    and t: "tallied (take (nat (size_to_int (length s))) s) (char_counts l)"
    using process_name_locals_tallied [OF assms(1), of sg rest] by blast
  from t have t': "tallied s (char_counts l)" by (simp add: len)
  have "length (char_counts l) = 256" using t' by (simp add: tallied_def)
  moreover have "\<forall>b. char_counts l ! unat b = int (count_list s b)"
    using tallied_byte [OF t'] by blast
  moreover have "sum_list (char_counts l) = length' l"
    by (simp add: tallied_sum_list [OF t'] n len)
  ultimately show ?thesis using l n len by simp
qed

theorem length_and_frequency_table_witness:
  "0 \<notin> set (bytes_of ''Anna'') \<and> length (bytes_of ''Anna'') < 2 ^ 31
   \<and> (\<exists>l. process_name_locals True (bytes_of ''Anna'' @ 0 # []) = Some l
           \<and> length' l = 4
           \<and> length (char_counts l) = 256
           \<and> (\<forall>b. char_counts l ! unat b = int (count_list (bytes_of ''Anna'') b))
           \<and> sum_list (char_counts l) = length' l)"
proof -
  have a: "0 \<notin> set (bytes_of ''Anna'')" by (simp add: bytes_of_def)
  have b: "length (bytes_of ''Anna'') < 2 ^ 31" by (simp add: bytes_of_def)
  have c: "int (length (bytes_of ''Anna'')) = 4" by (simp add: bytes_of_def)
  show ?thesis
    using a b length_and_frequency_table [OF a b, of True "[]"] unfolding c by blast
qed

text \<open>
  C7 as stated, for every input, fails on \<open>long_name\<close>: the length computed is
  \<open>- 2 ^ 31\<close>, not the \<open>2 ^ 31\<close> bytes of the string, and the table entry of the letter
  \<open>a\<close> is 0, not its \<open>2 ^ 31\<close> occurrences.
\<close>

theorem length_long_name_counterexample:
  "map_option length' (process_name_locals True (long_name @ [0])) = Some (- 2147483648)
   \<and> int (length long_name) = 2147483648
   \<and> map_option char_counts (process_name_locals True (long_name @ [0]))
       = Some (replicate 256 0)
   \<and> count_list long_name 97 = 2147483648"
proof -
  obtain l where l: "process_name_locals True (long_name @ 0 # []) = Some l"
    and n: "length' l = - 2147483648" and c: "char_counts l = replicate 256 0"
    using process_name_locals_long_name [of True "[]"] by blast
  then show ?thesis
    by (simp add: length_long_name count_long_name)
qed

text \<open>
  C9: the guard \<open>char_counts[i] > 0\<close> is redundant: for every C string the result is the
  fold of the unguarded loop body over the byte values 0 to 255.
\<close>

theorem combine_guard_redundant:
  assumes "0 \<notin> set s"
  shows "\<exists>l. process_name_locals sg (s @ 0 # rest) = Some l
           \<and> result l = foldl (combine_step_unguarded (char_counts l)) (hash l) byte_values"
proof -
  obtain l where l: "process_name_locals sg (s @ 0 # rest) = Some l"
    and t: "tallied (take (nat (size_to_int (length s))) s) (char_counts l)"
    and r: "result l = foldl (combine_step (char_counts l)) (hash l) byte_values"
    using process_name_locals_tallied [OF assms(1), of sg rest] by blast
  have "foldl (combine_step (char_counts l)) (hash l) byte_values
      = foldl (combine_step_unguarded (char_counts l)) (hash l) byte_values"
    by (rule foldl_combine_step_guard) (simp add: set_byte_values tallied_nonneg [OF t])
  with l r show ?thesis by simp
qed

theorem combine_guard_redundant_witness:
  "0 \<notin> set (bytes_of ''John'')
   \<and> (\<exists>l. process_name_locals True (bytes_of ''John'' @ 0 # []) = Some l
           \<and> result l = foldl (combine_step_unguarded (char_counts l)) (hash l) byte_values)"
proof -
  have a: "0 \<notin> set (bytes_of ''John'')" by (simp add: bytes_of_def)
  show ?thesis
    using a combine_guard_redundant [OF a, of True "[]"] by blast
qed

text \<open>
  C10: on a C string of bytes below 128, for either signedness of plain \<open>char\<close>, the value
  added in each step of the hash loop is the byte value, and the hash is the DJB2 hash of
  the string.
\<close>

theorem hash_ascii_is_djb2:
  assumes "0 \<notin> set s" and "\<forall>b\<in>set s. b < 128"
  shows "(\<forall>b\<in>set s. int_to_uint (char_to_int sg b) = ucast b)
    \<and> map_option (\<lambda>l. unat (hash l)) (process_name_locals sg (s @ 0 # rest)) = Some (djb2 s)"
proof -
  have c: "char_to_int sg b = uint b" if "b \<in> set s" for b
    using assms(2) that by (simp add: char_to_int_ascii)
  obtain l where l: "process_name_locals sg (s @ 0 # rest) = Some l"
    and h: "hash l = foldl (\<lambda>h b. hash_step h (char_to_int sg b)) 5381 s"
    using process_name_locals_tallied [OF assms(1), of sg rest] by blast
  have "unat (hash l) = djb2 s"
    unfolding h djb2_def using foldl_hash_step_djb2 [of s sg 5381] c by simp
  moreover have "\<forall>b\<in>set s. int_to_uint (char_to_int sg b) = ucast b"
    using c by (simp add: int_to_uint_def)
  ultimately show ?thesis using l by simp
qed

theorem hash_ascii_is_djb2_witness:
  "0 \<notin> set (bytes_of ''John'') \<and> list_all (\<lambda>b. b < 128) (bytes_of ''John'')
   \<and> list_all (\<lambda>b. int_to_uint (char_to_int True b) = ucast b) (bytes_of ''John'')
   \<and> map_option (\<lambda>l. unat (hash l)) (process_name_locals True (bytes_of ''John'' @ 0 # []))
       = Some (djb2 (bytes_of ''John''))
   \<and> djb2 (bytes_of ''John'') = 2089257364"
proof -
  have a: "0 \<notin> set (bytes_of ''John'')" by (simp add: bytes_of_def)
  have b: "\<forall>b\<in>set (bytes_of ''John''). b < 128" by (simp add: bytes_of_def)
  have c: "djb2 (bytes_of ''John'') = 2089257364" by (simp add: John_bytes djb2_def)
  show ?thesis
    using a b c hash_ascii_is_djb2 [OF a b, of True "[]"] by (simp add: list_all_iff)
qed

section \<open>Properties of \<open>main\<close>\<close>

lemma c_string_split: "0 \<in> set a \<Longrightarrow> \<exists>s rest. a = s @ 0 # rest \<and> 0 \<notin> set s"
  by (metis split_list_first)

lemma process_name_returns:
  assumes "0 \<in> set a"
  shows "\<exists>s r out. c_str a = Some s \<and> process_name sg a = Some (r, out) \<and> length out = 2"
proof -
  obtain s rest where a: "a = s @ 0 # rest" and s: "0 \<notin> set s"
    using c_string_split [OF assms] by blast
  obtain l where l: "process_name_locals sg (s @ 0 # rest) = Some l"
    using process_name_locals_tallied [OF s, of sg rest] by blast
  show ?thesis
    unfolding a using process_name_c_string [OF s l] c_str_c_string [OF s] by simp
qed

lemma c_str_takeWhile: "0 \<in> set a \<Longrightarrow> c_str a = Some (takeWhile (\<lambda>b. b \<noteq> 0) a)"
  by (induction a) auto

lemma argv_str_0:
  assumes "\<forall>a\<in>set argv. 0 \<in> set a"
  shows "argv_str argv 0 =
    Some (case argv of [] \<Rightarrow> ArgNull | a # _ \<Rightarrow> ArgStr (takeWhile (\<lambda>b. b \<noteq> 0) a))"
  using assms by (cases argv) (simp_all add: argv_str_def c_str_takeWhile)

text \<open>
  C8: with every argument a C string, \<open>main\<close> returns. It returns 1, having printed the
  two usage lines with the program name of \<open>argv[0]\<close> and nothing else, exactly when the
  number of arguments after the program name is not one; and it returns 0 when that
  number is one.
\<close>

theorem main_exit_status:
  assumes \<open>\<forall>a\<in>set argv. 0 \<in> set a\<close>
  shows \<open>\<exists>st out. main sg argv = Some (st, out)
    \<and> ((st = 1 \<and> out =
          [Printf ''Usage: %s <name>\<newline>''
             [case argv of [] \<Rightarrow> ArgNull | a # _ \<Rightarrow> ArgStr (takeWhile (\<lambda>b. b \<noteq> 0) a)],
           Printf ''Example: %s "John"\<newline>''
             [case argv of [] \<Rightarrow> ArgNull | a # _ \<Rightarrow> ArgStr (takeWhile (\<lambda>b. b \<noteq> 0) a)]])
         \<longleftrightarrow> length (tl argv) \<noteq> 1)
    \<and> (length (tl argv) = 1 \<longrightarrow> st = 0)\<close>
proof (cases "length argv = 2")
  case True
  then have "argv ! 1 \<in> set argv" by simp
  with assms have "0 \<in> set (argv ! 1)" by blast
  then obtain s r out where "c_str (argv ! 1) = Some s"
    and "process_name sg (argv ! 1) = Some (r, out)"
    using process_name_returns by blast
  with True show ?thesis by (simp add: main_def)
next
  case False
  then have "length (tl argv) \<noteq> 1" by simp
  with False show ?thesis
    by (simp add: main_def argv_str_0 [OF assms] usage_def)
qed

theorem main_exit_status_witness:
  \<open>0 \<in> set prog \<and> length (tl [prog]) = 0
   \<and> main True [prog] = Some (1,
        [Printf ''Usage: %s <name>\<newline>'' [ArgStr (bytes_of ''./name_processor'')],
         Printf ''Example: %s "John"\<newline>'' [ArgStr (bytes_of ''./name_processor'')]])
   \<and> 0 \<in> set (bytes_of ''John'' @ [0])
   \<and> length (tl [prog, bytes_of ''John'' @ [0]]) = 1
   \<and> (\<exists>out. main True [prog, bytes_of ''John'' @ [0]] = Some (0, out))\<close>
proof -
  have a: "\<forall>a\<in>set [prog]. 0 \<in> set a"
    by (simp add: prog_def)
  have b: "\<forall>a\<in>set [prog, bytes_of ''John'' @ [0]]. 0 \<in> set a"
    by (simp add: prog_def)
  have c: "takeWhile (\<lambda>b. b \<noteq> 0) prog = bytes_of ''./name_processor''"
    by (simp add: prog_def bytes_of_def)
  have "main True [prog] = Some (1,
        [Printf ''Usage: %s <name>\<newline>'' [ArgStr (bytes_of ''./name_processor'')],
         Printf ''Example: %s \"John\"\<newline>'' [ArgStr (bytes_of ''./name_processor'')]])"
    using main_exit_status [OF a, of True] by (auto simp: c)
  moreover have "\<exists>out. main True [prog, bytes_of ''John'' @ [0]] = Some (0, out)"
    using main_exit_status [OF b, of True] by auto
  ultimately show ?thesis using a b by simp
qed

text \<open>No argument, and two arguments.\<close>

lemma main_no_argument:
  "main sg [prog] = Some (1, usage (ArgStr (bytes_of ''./name_processor'')))"
  by (simp add: main_def argv_str_def prog_def bytes_of_def)

lemma main_two_arguments:
  "main sg [prog, bytes_of ''John'' @ [0], bytes_of ''Doe'' @ [0]]
     = Some (1, usage (ArgStr (bytes_of ''./name_processor'')))"
  by (simp add: main_def argv_str_def prog_def bytes_of_def)

end
